theory Spec2Isabelle
  imports Main
begin

section \<open>Data-source descriptors\<close>

text \<open>
  The descriptors handled by \<^verbatim>\<open>datasources.js\<close> are plain JavaScript objects read by
  duck typing: the same variable \<^verbatim>\<open>source\<close> of \<^verbatim>\<open>getTree\<close> holds a structure entry, a
  data source or a subset. One datatype therefore covers the three shapes; a property
  that an object does not have (\<^verbatim>\<open>undefined\<close>) is \<open>None\<close>. The \<^verbatim>\<open>structure\<close> and
  \<^verbatim>\<open>related\<close> objects are association lists in the enumeration order of their keys.
\<close>

record reference =
  ref_source :: "string option"
  ref_subset :: "string option"
  ref_key :: "string option"

datatype dsobj = DSObj
  (obj_id: "string option")
  (obj_uri: "string option")
  (obj_path: "string option")
  (obj_name: "string option")
  (obj_structure: "(string \<times> dsobj) list option")
  (obj_reference: "reference option")
  (obj_subsets: "dsobj list option")
  (obj_key: "string option")
  (obj_related: "(string \<times> string) list option")

text \<open>JavaScript truthiness of an optional string and string conversion of \<^verbatim>\<open>undefined\<close>.\<close>

fun truthy :: "string option \<Rightarrow> bool" where
  "truthy None = False"
| "truthy (Some s) = (s \<noteq> [])"

fun str_of :: "string option \<Rightarrow> string" where
  "str_of None = ''undefined''"
| "str_of (Some s) = s"

text \<open>\<^verbatim>\<open>a || b\<close> on optional strings.\<close>

definition or_else :: "string option \<Rightarrow> string option \<Rightarrow> string option" where
  "or_else a b = (if truthy a then a else b)"

section \<open>The loader\<close>

text \<open>
  The placeholder of \<^verbatim>\<open>finish\<close>:
  \<^verbatim>\<open>{id: "", uri: "", path: "", name: "Not Found", structure: {}}\<close>.
\<close>

definition not_found :: dsobj where
  "not_found = DSObj (Some '''') (Some '''') (Some '''') (Some ''Not Found'') (Some [])
     None None None None"

text \<open>
  The part of \<^verbatim>\<open>that.cache\<close> the loader itself writes is \<^verbatim>\<open>sources\<close>; the derived values
  (\<^verbatim>\<open>hashtagMap\<close>, \<^verbatim>\<open>hashtagTransforms\<close>) are entries of the same object, stored there by
  \<^verbatim>\<open>getValue\<close>.
\<close>

record cache =
  c_sources :: "dsobj list option"
  c_hashtagMap :: "(string \<rightharpoonup> string) option"
  c_hashtagTransforms :: "(string \<rightharpoonup> (string \<Rightarrow> string)) option"

definition empty_cache :: cache where
  "empty_cache = \<lparr>c_sources = None, c_hashtagMap = None, c_hashtagTransforms = None\<rparr>"

text \<open>
  \<^verbatim>\<open>dataSourcesEndpoint\<close> is absent, a URL string, or a host function that receives
  \<^verbatim>\<open>finish\<close>; \<open>EndpointFn (Some data)\<close> is a host function that calls the callback with
  \<open>data\<close> before it returns, \<open>EndpointFn None\<close> one that does not.
\<close>

datatype endpoint = NoEndpoint | Url string | EndpointFn "dsobj list option"

text \<open>What the loader does to the outside: events fired, the log, requests and timers.\<close>

datatype effect =
    Fire string
  | FireError
  | ConsoleLog
  | Ajax string
  | SetTimeout nat

record loader =
  endpoint :: endpoint
  invalidCaseProperties :: "string list"
  retryTimeout :: nat
  cache :: cache
  loading :: bool


text \<open>
  \<^verbatim>\<open>finish(data)\<close> of \<^verbatim>\<open>loadDataSources\<close>: the cache object is replaced by one that holds
  only \<^verbatim>\<open>sources\<close>.
\<close>

definition finish :: "dsobj list \<Rightarrow> loader \<Rightarrow> loader \<times> effect list" where
  "finish data that =
     (that\<lparr>cache := empty_cache\<lparr>c_sources := Some (if length data \<noteq> 0 then data else [not_found])\<rparr>,
           loading := False\<rparr>,
      [Fire ''change''])"


text \<open>\<^verbatim>\<open>if (that.endpoint)\<close>: an empty URL string is falsy.\<close>

fun endpoint_truthy :: "endpoint \<Rightarrow> bool" where
  "endpoint_truthy NoEndpoint = False"
| "endpoint_truthy (Url u) = (u \<noteq> [])"
| "endpoint_truthy (EndpointFn f) = True"

definition loadDataSources :: "loader \<Rightarrow> loader \<times> effect list" where
  "loadDataSources that =
     (if endpoint_truthy (endpoint that) then
        (case endpoint that of
           Url u \<Rightarrow> (that\<lparr>loading := True\<rparr>, [Ajax u])
         | EndpointFn None \<Rightarrow> (that, [])
         | EndpointFn (Some data) \<Rightarrow> finish data that
         | NoEndpoint \<Rightarrow> finish [] that)
      else finish [] that)"


text \<open>
  The earlier loader (the unnamed source file): a module-level \<^verbatim>\<open>dataCache\<close> and two
  callback lists. A callback is a host function, named here by a number; \<open>None\<close> is a
  callback that was not supplied and that \<^verbatim>\<open>_.compact\<close> drops.
\<close>

record module_state =
  dataSourcesEndpoint :: endpoint
  dataCache :: "dsobj list option"
  dataCallbacks :: "nat option list"
  errorCallbacks :: "nat option list"

datatype call =
    CallSuccess nat "dsobj list"
  | CallError nat
  | CallLog
  | CallAjax string
  | ThrowTypeError

definition compact :: "'a option list \<Rightarrow> 'a list" where
  "compact xs = List.map_filter (\<lambda>x. x) xs"

definition finish0 :: "dsobj list \<Rightarrow> module_state \<Rightarrow> module_state \<times> call list" where
  "finish0 data st =
     (let dc = (if length data \<noteq> 0 then data else [not_found])
      in (st\<lparr>dataCache := Some dc, dataCallbacks := []\<rparr>,
          map (\<lambda>cb. CallSuccess cb dc) (compact (dataCallbacks st))))"

text \<open>The \<^verbatim>\<open>error\<close> handler handed to \<^verbatim>\<open>$.ajax\<close> by the earlier loader.\<close>

definition ajax_error0 :: "module_state \<Rightarrow> module_state \<times> call list" where
  "ajax_error0 st =
     (let (st1, calls) = finish0 [] st;
          ecs = compact (errorCallbacks st1)
      in (st1\<lparr>errorCallbacks := []\<rparr>,
          calls @ map CallError ecs @ (if length ecs = 0 then [CallLog] else [])))"

definition getDataSources0 ::
  "nat option \<Rightarrow> nat option \<Rightarrow> module_state \<Rightarrow> module_state \<times> call list" where
  "getDataSources0 successCallback errorCallback st =
     (case dataCache st of
        Some dc \<Rightarrow>
          (st, (case successCallback of Some cb \<Rightarrow> [CallSuccess cb dc] | None \<Rightarrow> [ThrowTypeError]))
      | None \<Rightarrow>
          if length (dataCallbacks st) \<noteq> 0 then
            (st\<lparr>dataCallbacks := dataCallbacks st @ [successCallback],
                 errorCallbacks := errorCallbacks st @ [errorCallback]\<rparr>, [])
          else
            (let st1 = st\<lparr>dataCallbacks := dataCallbacks st @ [successCallback],
                           errorCallbacks := errorCallbacks st @ [errorCallback]\<rparr>
             in if endpoint_truthy (dataSourcesEndpoint st1) then
                  (case dataSourcesEndpoint st1 of
                     Url u \<Rightarrow> (st1, [CallAjax u])
                   | EndpointFn None \<Rightarrow> (st1, [])
                   | EndpointFn (Some data) \<Rightarrow> finish0 data st1
                   | NoEndpoint \<Rightarrow> finish0 [] st1)
                else finish0 [] st1))"

text \<open>What a consumer reads from the loader without starting a load.\<close>

definition cached_sources :: "loader \<Rightarrow> dsobj list option" where
  "cached_sources that = c_sources (cache that)"



section \<open>Properties of the loader\<close>

lemma finish_sources:
  "c_sources (cache (fst (finish data that))) = Some (if data = [] then [not_found] else data)"
  by (simp add: finish_def)

lemma finish0_sources:
  "dataCache (fst (finish0 data st)) = Some (if data = [] then [not_found] else data)"
  by (simp add: finish0_def Let_def)

lemma ajax_error0_sources: "dataCache (fst (ajax_error0 st)) = Some [not_found]"
  by (simp add: ajax_error0_def finish0_def Let_def)

lemma loadDataSources_no_endpoint:
  "\<not> endpoint_truthy (endpoint that) \<Longrightarrow>
     c_sources (cache (fst (loadDataSources that))) = Some [not_found]"
  by (simp add: loadDataSources_def finish_def)

lemma getDataSources0_no_endpoint:
  assumes "\<not> endpoint_truthy (dataSourcesEndpoint st)" "dataCache st = None" "dataCallbacks st = []"
  shows "dataCache (fst (getDataSources0 s e st)) = Some [not_found]"
  using assms by (simp add: getDataSources0_def finish0_def Let_def)

text \<open>
  C10. A load that completes with an empty descriptor list stores the one placeholder
  source \<^verbatim>\<open>{id: "", uri: "", path: "", name: "Not Found", structure: {}}\<close>, and a completed
  load never leaves an empty source list behind. This holds for \<^verbatim>\<open>finish\<close> of both
  loaders, for the empty list that stands in for a missing endpoint in both, and for the
  empty list that the earlier loader's error handler passes to \<^verbatim>\<open>finish\<close>.
\<close>

theorem C10_completed_load_never_empty:
  "cached_sources (fst (finish [] that)) = Some [not_found]
   \<and> cached_sources (fst (finish data that)) \<noteq> Some []
   \<and> cached_sources (fst (finish data that)) \<noteq> None
   \<and> cached_sources (fst (loadDataSources (that\<lparr>endpoint := NoEndpoint\<rparr>))) = Some [not_found]
   \<and> cached_sources (fst (loadDataSources (that\<lparr>endpoint := Url []\<rparr>))) = Some [not_found]
   \<and> dataCache (fst (finish0 [] st)) = Some [not_found]
   \<and> dataCache (fst (finish0 data st)) \<noteq> Some []
   \<and> dataCache (fst (finish0 data st)) \<noteq> None
   \<and> dataCache (fst (ajax_error0 st)) = Some [not_found]
   \<and> dataCache (fst (getDataSources0 s e
         (st\<lparr>dataSourcesEndpoint := NoEndpoint, dataCache := None, dataCallbacks := []\<rparr>)))
       = Some [not_found]
   \<and> not_found = DSObj (Some []) (Some []) (Some []) (Some ''Not Found'') (Some [])
         None None None None"
proof -
  have new: "cached_sources (fst (finish d that)) = Some (if d = [] then [not_found] else d)"
    for d by (simp add: cached_sources_def finish_sources)
  have old: "dataCache (fst (finish0 d st)) = Some (if d = [] then [not_found] else d)"
    for d by (rule finish0_sources)
  have e1: "cached_sources (fst (loadDataSources (that\<lparr>endpoint := NoEndpoint\<rparr>))) = Some [not_found]"
    by (simp add: cached_sources_def loadDataSources_no_endpoint)
  have e2: "cached_sources (fst (loadDataSources (that\<lparr>endpoint := Url []\<rparr>))) = Some [not_found]"
    by (simp add: cached_sources_def loadDataSources_no_endpoint)
  have e3: "dataCache (fst (getDataSources0 s e
         (st\<lparr>dataSourcesEndpoint := NoEndpoint, dataCache := None, dataCallbacks := []\<rparr>)))
       = Some [not_found]"
    by (simp add: getDataSources0_no_endpoint)
  show ?thesis
    using new [of "[]"] new [of data] old [of "[]"] old [of data] e1 e2 e3
    by (simp add: ajax_error0_sources not_found_def)
qed









section \<open>The hashtag transformer\<close>

text \<open>
  The module \<^verbatim>\<open>vellum/escapedHashtags\<close> is not among the source files; only its tests are.
  Its tokenizer and \<^verbatim>\<open>transform\<close> are modelled from sections 4.1, 4.2 and 8 of the
  specification, and the fixtures of the tests are checked against the model below. The
  scan compares the symbols of the string with the delimiter one by one.
\<close>

definition DELIMITER :: char where
  "DELIMITER = CHR 0x60"

datatype token = Literal string | Hashtag string

text \<open>
  Modelled from the spec: the scan of section 4.1 from an opening backtick to the next
  backtick, missing with \<^verbatim>\<open>vellum/escapedHashtags\<close>. The result is the text before the closing
  backtick and the text after it, or \<open>None\<close> when the span is never closed.
\<close>

fun until_delimiter :: "string \<Rightarrow> string \<times> string option" where
  "until_delimiter [] = ([], None)"
| "until_delimiter (c # cs) =
     (if c = DELIMITER then ([], Some cs)
      else (case until_delimiter cs of (content, rest) \<Rightarrow> (c # content, rest)))"

lemma until_delimiter_length:
  "until_delimiter cs = (content, Some rest) \<Longrightarrow> length rest < length cs"
  by (induction cs arbitrary: content) (auto split: if_splits prod.splits)

text \<open>
  Modelled from the spec: the tokenizer of section 4.1, missing with
  \<^verbatim>\<open>vellum/escapedHashtags\<close>. A backtick opens a hashtag span that the next backtick closes; a
  backtick that is never closed stays in the text with everything after it; a doubled
  backtick outside a span is one backtick of text (section 8, the empty pair); a space is
  put between a closed span and a minus sign that follows it at once (section 8, the
  second fixture).
\<close>

function tokenize :: "string \<Rightarrow> token list" where
  "tokenize [] = []"
| "tokenize (c # cs) =
     (if c \<noteq> DELIMITER then Literal [c] # tokenize cs
      else (case cs of
              [] \<Rightarrow> [Literal [DELIMITER]]
            | c2 # cs2 \<Rightarrow>
                if c2 = DELIMITER then Literal [DELIMITER] # tokenize cs2
                else (case until_delimiter cs of
                        (content, None) \<Rightarrow> [Literal (DELIMITER # content)]
                      | (content, Some rest) \<Rightarrow>
                          Hashtag content #
                          (if take 1 rest = ''-'' then [Literal '' ''] else []) @ tokenize rest)))"
  by pat_completeness auto
termination
proof (relation "measure length", goal_cases)
  case (4 c cs c2 cs2 content r rest)
  then have "until_delimiter cs = (content, Some rest)" by simp
  from until_delimiter_length [OF this] show ?case by simp
qed simp_all

text \<open>
  Modelled from the spec: \<^verbatim>\<open>transform(input, map_fn)\<close> of section 4.2, missing with
  \<^verbatim>\<open>vellum/escapedHashtags\<close>: \<^verbatim>\<open>map_fn\<close> is applied to the content of every hashtag token,
  literal tokens pass through, and the pieces are put together in their order. The default
  \<^verbatim>\<open>map_fn\<close> is the identity.
\<close>

fun render :: "(string \<Rightarrow> string) \<Rightarrow> token \<Rightarrow> string" where
  "render map_fn (Literal t) = t"
| "render map_fn (Hashtag h) = map_fn h"

definition transform :: "string \<Rightarrow> (string \<Rightarrow> string) \<Rightarrow> string" where
  "transform input map_fn = concat (map (render map_fn) (tokenize input))"

text \<open>
  \<^verbatim>\<open>transformToProperty\<close> of the tests: the part of the input after its last slash.
\<close>

definition transformToProperty :: "string \<Rightarrow> string" where
  "transformToProperty input = rev (takeWhile (\<lambda>c. c \<noteq> CHR ''/'') (rev input))"

text \<open>A string with balanced backtick pairs: the number of its backticks is even.\<close>

definition balanced :: "string \<Rightarrow> bool" where
  "balanced s = even (length (filter (\<lambda>c. c = DELIMITER) s))"


section \<open>Properties of the transformer\<close>

text \<open>The fixtures of the \<^verbatim>\<open>#transform()\<close> tests, default and custom transform.\<close>

lemma transform_fixture_1:
  "transform (DELIMITER # ''#case/type/prop'' @ [DELIMITER]) id = ''#case/type/prop''"
  "transform (DELIMITER # ''#case/type/prop'' @ [DELIMITER]) transformToProperty = ''prop''"
  by (simp_all add: transform_def transformToProperty_def DELIMITER_def)

lemma transform_fixture_2:
  "transform (DELIMITER # ''#case/type/prop'' @ [DELIMITER] @ ''- 1'') id = ''#case/type/prop - 1''"
  "transform (DELIMITER # ''#case/type/prop'' @ [DELIMITER] @ ''- 1'') transformToProperty = ''prop - 1''"
  by (simp_all add: transform_def transformToProperty_def DELIMITER_def)

lemma transform_fixture_3:
  "transform (''('' @ DELIMITER # ''#case/type/prop'' @ [DELIMITER] @ '')'') id = ''(#case/type/prop)''"
  "transform (''('' @ DELIMITER # ''#case/type/prop'' @ [DELIMITER] @ '')'') transformToProperty = ''(prop)''"
  by (simp_all add: transform_def transformToProperty_def DELIMITER_def)

lemma transform_fixture_5:
  "transform (DELIMITER # ''#case/type/prop'' @ [DELIMITER] @ '' = '' @
       DELIMITER # ''#case/type/prop2'' @ [DELIMITER]) id
     = ''#case/type/prop = #case/type/prop2''"
  "transform (DELIMITER # ''#case/type/prop'' @ [DELIMITER] @ '' = '' @
       DELIMITER # ''#case/type/prop2'' @ [DELIMITER]) transformToProperty
     = ''prop = prop2''"
  by (simp_all add: transform_def transformToProperty_def DELIMITER_def)

lemma transform_fixture_10:
  "transform (DELIMITER # ''#case/type/prop'' @ [DELIMITER] @ '' = '' @ [DELIMITER, DELIMITER]) id
     = ''#case/type/prop = '' @ [DELIMITER]"
  "transform (DELIMITER # ''#case/type/prop'' @ [DELIMITER] @ '' = '' @ [DELIMITER, DELIMITER])
       transformToProperty
     = ''prop = '' @ [DELIMITER]"
  by (simp_all add: transform_def transformToProperty_def DELIMITER_def)

lemma transform_fixture_4:
  "transform (''('' @ DELIMITER # ''#case/type/prop'' @ [DELIMITER]) id = ''(#case/type/prop''"
  "transform (''('' @ DELIMITER # ''#case/type/prop'' @ [DELIMITER]) transformToProperty = ''(prop''"
  by (simp_all add: transform_def transformToProperty_def DELIMITER_def)

lemma transform_fixture_6:
  "transform [DELIMITER, DELIMITER] id = [DELIMITER]"
  "transform [DELIMITER, DELIMITER] transformToProperty = [DELIMITER]"
  by (simp_all add: transform_def transformToProperty_def DELIMITER_def)

text \<open>
  The seventh and eighth fixture hold code points outside ASCII; they are written here as
  the bytes of their UTF-8 form, none of which is the delimiter.
\<close>

lemma transform_fixture_7:
  "transform ([CHR 0xF0, CHR 0x9F, CHR 0x8D, CHR 0x8A] @ ''you glad I didn'' @ [CHR 0x27] @ ''t use ''
       @ [CHR 0xF0, CHR 0x9F, CHR 0x8D, CHR 0x8C] @ [DELIMITER]) id
     = [CHR 0xF0, CHR 0x9F, CHR 0x8D, CHR 0x8A] @ ''you glad I didn'' @ [CHR 0x27] @ ''t use ''
       @ [CHR 0xF0, CHR 0x9F, CHR 0x8D, CHR 0x8C] @ [DELIMITER]"
  "transform ([CHR 0xF0, CHR 0x9F, CHR 0x8D, CHR 0x8A] @ ''you glad I didn'' @ [CHR 0x27] @ ''t use ''
       @ [CHR 0xF0, CHR 0x9F, CHR 0x8D, CHR 0x8C] @ [DELIMITER]) transformToProperty
     = [CHR 0xF0, CHR 0x9F, CHR 0x8D, CHR 0x8A] @ ''you glad I didn'' @ [CHR 0x27] @ ''t use ''
       @ [CHR 0xF0, CHR 0x9F, CHR 0x8D, CHR 0x8C] @ [DELIMITER]"
  by (simp_all add: transform_def transformToProperty_def DELIMITER_def)

lemma transform_fixture_8:
  "transform [DELIMITER, CHR 0xF0, CHR 0x9F, CHR 0x8D, CHR 0xA0] id
     = [DELIMITER, CHR 0xF0, CHR 0x9F, CHR 0x8D, CHR 0xA0]"
  "transform [DELIMITER, CHR 0xF0, CHR 0x9F, CHR 0x8D, CHR 0xA0] transformToProperty
     = [DELIMITER, CHR 0xF0, CHR 0x9F, CHR 0x8D, CHR 0xA0]"
  by (simp_all add: transform_def transformToProperty_def DELIMITER_def)

lemma transform_fixture_9:
  "transform (DELIMITER # ''#case/type/prop'' @ [DELIMITER] @ '' = '' @ [DELIMITER]) id
     = ''#case/type/prop = '' @ [DELIMITER]"
  "transform (DELIMITER # ''#case/type/prop'' @ [DELIMITER] @ '' = '' @ [DELIMITER]) transformToProperty
     = ''prop = '' @ [DELIMITER]"
  by (simp_all add: transform_def transformToProperty_def DELIMITER_def)

lemma transform_fixture_11:
  "transform (DELIMITER # ''#case/prop1'' @ [DELIMITER, DELIMITER] @ ''#case/prop2'' @ [DELIMITER]
       @ '' = '' @ [DELIMITER, DELIMITER]) id
     = ''#case/prop1#case/prop2 = '' @ [DELIMITER]"
  "transform (DELIMITER # ''#case/prop1'' @ [DELIMITER, DELIMITER] @ ''#case/prop2'' @ [DELIMITER]
       @ '' = '' @ [DELIMITER, DELIMITER]) transformToProperty
     = ''prop1prop2 = '' @ [DELIMITER]"
  by (simp_all add: transform_def transformToProperty_def DELIMITER_def)

lemma transform_fixture_12:
  "transform ([DELIMITER, DELIMITER] @ ''#case/type/'' @ [DELIMITER, DELIMITER] @ ''prop''
       @ [DELIMITER] @ '' = '' @ [DELIMITER, DELIMITER]) id
     = DELIMITER # ''#case/type/'' @ DELIMITER # ''prop = '' @ [DELIMITER]"
  "transform ([DELIMITER, DELIMITER] @ ''#case/type/'' @ [DELIMITER, DELIMITER] @ ''prop''
       @ [DELIMITER] @ '' = '' @ [DELIMITER, DELIMITER]) transformToProperty
     = DELIMITER # ''#case/type/'' @ DELIMITER # ''prop = '' @ [DELIMITER]"
  by (simp_all add: transform_def transformToProperty_def DELIMITER_def)

lemma transform_no_delimiter:
  "DELIMITER \<notin> set t \<Longrightarrow> transform t g = t"
  by (induction t) (auto simp: transform_def)

text \<open>
  C8, as stated: for every string with balanced backtick pairs, transforming with \<open>f\<close> and
  then with \<open>g\<close> is transforming with \<open>g \<circ> f\<close>. It fails on the first fixture of the tests
  with the default transform followed by \<^verbatim>\<open>transformToProperty\<close>: the first pass removes the
  delimiters, so the second pass finds no hashtag to rewrite.
\<close>

theorem C8_counterexample_composition:
  "balanced (DELIMITER # ''#case/type/prop'' @ [DELIMITER])
   \<and> transform (transform (DELIMITER # ''#case/type/prop'' @ [DELIMITER]) id) transformToProperty
       = ''#case/type/prop''
   \<and> transform (DELIMITER # ''#case/type/prop'' @ [DELIMITER]) (transformToProperty \<circ> id) = ''prop''
   \<and> transform (transform (DELIMITER # ''#case/type/prop'' @ [DELIMITER]) id) transformToProperty
       \<noteq> transform (DELIMITER # ''#case/type/prop'' @ [DELIMITER]) (transformToProperty \<circ> id)"
  by (simp add: transform_def transformToProperty_def DELIMITER_def balanced_def)

text \<open>
  C8, as amended: for every string \<open>s\<close> and all transform functions \<open>f\<close> and \<open>g\<close>, when the
  result of the first pass holds no backtick, the second pass changes nothing:
  \<open>transform (transform s f) g = transform s f\<close>.
\<close>

theorem C8_second_pass_is_identity:
  assumes "DELIMITER \<notin> set (transform s f)"
  shows "transform (transform s f) g = transform s f"
proof -
  have "tokenize t = map (\<lambda>c. Literal [c]) t" if "DELIMITER \<notin> set t" for t
    using that by (induction t) auto
  from this [OF assms] have "tokenize (transform s f) = map (\<lambda>c. Literal [c]) (transform s f)" .
  then have "transform (transform s f) g = concat (map (\<lambda>c. [c]) (transform s f))"
    by (simp add: transform_def o_def)
  also have "\<dots> = transform s f"
    by (induction "transform s f") simp_all
  finally show ?thesis .
qed

theorem C8_second_pass_is_identity_witness:
  "DELIMITER \<notin> set (transform (DELIMITER # ''#case/type/prop'' @ [DELIMITER]) id)
   \<and> transform (transform (DELIMITER # ''#case/type/prop'' @ [DELIMITER]) id) transformToProperty
       = ''#case/type/prop''"
proof -
  have h: "DELIMITER \<notin> set (transform (DELIMITER # ''#case/type/prop'' @ [DELIMITER]) id)"
    by (simp add: transform_def DELIMITER_def)
  have v: "transform (DELIMITER # ''#case/type/prop'' @ [DELIMITER]) id = ''#case/type/prop''"
    by (simp add: transform_def DELIMITER_def)
  from C8_second_pass_is_identity [OF h, of transformToProperty] v show ?thesis
    using h by simp
qed


section \<open>The data-node tree\<close>

text \<open>
  \<^verbatim>\<open>info\<close> is the source without its \<^verbatim>\<open>structure\<close>, with the \<^verbatim>\<open>_parent\<close> link that \<^verbatim>\<open>getTree\<close>
  adds when it follows a reference.
\<close>

datatype info = Info (info_obj: dsobj) (info_parent: "info option")

fun omit_structure :: "dsobj \<Rightarrow> dsobj" where
  "omit_structure (DSObj i u p n st r ss k rel) = DSObj i u p n None r ss k rel"

text \<open>
  \<^verbatim>\<open>tree.getNodes\<close> is a closure over the final values of \<^verbatim>\<open>source\<close>, \<^verbatim>\<open>path\<close> and \<^verbatim>\<open>info\<close>
  in \<^verbatim>\<open>getTree\<close>; the model keeps these three values and runs \<^verbatim>\<open>getNodes\<close> on them when the
  closure is called. A \<^verbatim>\<open>source\<close> that is \<^verbatim>\<open>undefined\<close> is \<open>None\<close>.
\<close>

record thunk =
  th_source :: "dsobj option"
  th_path :: string
  th_info :: info

record tree =
  t_name :: string
  t_recursive :: bool
  t_getNodes :: thunk

record data_node =
  n_name :: string
  n_hashtag :: "string option"
  n_hashtagPrefix :: "string option"
  n_parentPath :: "string option"
  n_xpath :: string
  n_index :: bool
  n_sourceInfo :: info
  n_getNodes :: thunk
  n_recursive :: bool

text \<open>The exception of reading a property of \<^verbatim>\<open>null\<close>.\<close>

datatype error = TypeError

text \<open>
  \<^verbatim>\<open>_.indexBy(sources, "id")\<close> read at a key: the last descriptor with that id. The key of a
  descriptor without id is the string \<^verbatim>\<open>undefined\<close>. Ids are taken not to be names of
  members of \<^verbatim>\<open>Object.prototype\<close> (such as \<^verbatim>\<open>constructor\<close>, or \<^verbatim>\<open>hasOwnProperty\<close>, which
  as a key of \<^verbatim>\<open>seen\<close> would hide the method that \<^verbatim>\<open>getTree\<close> calls).
\<close>

definition indexBy_id :: "dsobj list \<Rightarrow> string \<Rightarrow> dsobj option" where
  "indexBy_id srcs = map_of (rev (map (\<lambda>s. (str_of (obj_id s), s)) srcs))"

text \<open>\<^verbatim>\<open>_.findWhere(source.subsets, {id: ref.subset, key: "@case_type"})\<close>.\<close>

definition findWhere :: "dsobj list \<Rightarrow> string option \<Rightarrow> dsobj option" where
  "findWhere subsets sid =
     List.find (\<lambda>s. obj_id s = sid \<and> obj_key s = Some ''@case_type'') subsets"

text \<open>\<^verbatim>\<open>"instance('" + id + "')" + path\<close>.\<close>

definition instance_path :: "string \<Rightarrow> string \<Rightarrow> string" where
  "instance_path i p = ''instance('' @ [CHR 0x27] @ i @ [CHR 0x27] @ '')'' @ p"

text \<open>
  \<^verbatim>\<open>if (source.subsets && ref.subset) { source = _.findWhere(...) || source; }\<close>: the object
  that \<^verbatim>\<open>source\<close> holds afterwards. An array is truthy even when it is empty.
\<close>

definition select_subset :: "dsobj \<Rightarrow> reference \<Rightarrow> dsobj" where
  "select_subset base ref =
     (case obj_subsets base of
        None \<Rightarrow> base
      | Some subsets \<Rightarrow>
          if truthy (ref_subset ref)
          then (case findWhere subsets (ref_subset ref) of Some sub \<Rightarrow> sub | None \<Rightarrow> base)
          else base)"

text \<open>
  \<^verbatim>\<open>getTree(item, id, path, info)\<close>. The object \<^verbatim>\<open>seen\<close> of \<^verbatim>\<open>builders.dataNodes\<close> is shared by
  every call of one build; it is passed in and returned. Its keys are the ids of the
  objects that references resolved to (a subset's id when a subset was selected).
\<close>

definition getTree ::
  "dsobj list \<Rightarrow> string set \<Rightarrow> dsobj \<Rightarrow> string \<Rightarrow> string \<Rightarrow> info \<Rightarrow> tree \<times> string set" where
  "getTree srcs seen item ident path info =
     (let name0 = str_of (or_else (obj_name item) (Some ident)) in
      case (obj_structure item, obj_reference item) of
        (None, Some ref) \<Rightarrow>
          (case indexBy_id srcs (str_of (or_else (ref_source ref) (obj_id (info_obj info)))) of
             None \<Rightarrow>
               (\<lparr>t_name = name0, t_recursive = False,
                 t_getNodes = \<lparr>th_source = None, th_path = path, th_info = info\<rparr>\<rparr>, seen)
           | Some base \<Rightarrow>
               (let info1 = Info (omit_structure base) (Some info);
                    path1 = instance_path (str_of (obj_id base)) (str_of (obj_path base)) @
                            ''['' @ str_of (ref_key ref) @ '' = '' @ path @ '']'';
                    source = select_subset base ref;
                    name = or_else (obj_name source) (obj_id source);
                    name1 = (if truthy name then str_of name else name0)
                in (\<lparr>t_name = name1, t_recursive = (str_of (obj_id source) \<in> seen),
                     t_getNodes = \<lparr>th_source = Some source, th_path = path1, th_info = info1\<rparr>\<rparr>,
                    insert (str_of (obj_id source)) seen)))
      | _ \<Rightarrow>
          (\<lparr>t_name = name0, t_recursive = False,
            t_getNodes = \<lparr>th_source = Some item, th_path = path, th_info = info\<rparr>\<rparr>, seen))"

text \<open>
  \<^verbatim>\<open>node(source, parentPath, info, index)(item, id)\<close>; the result is \<^verbatim>\<open>null\<close> for an id listed in
  \<^verbatim>\<open>invalidCaseProperties\<close>.
\<close>

definition node ::
  "dsobj list \<Rightarrow> string list \<Rightarrow> dsobj option \<Rightarrow> string option \<Rightarrow> info \<Rightarrow> bool \<Rightarrow>
     string set \<Rightarrow> string \<times> dsobj \<Rightarrow> data_node option \<times> string set" where
  "node srcs invalid source parentPath info index seen entry =
     (case entry of (ident, item) \<Rightarrow>
      if ident \<in> set invalid then (None, seen)
      else
        (let path = (if truthy parentPath then str_of parentPath @ ''/'' @ ident else ident);
             (tree, seen1) = getTree srcs seen item ident path info;
             hashtagPrefix =
               (case source of
                  None \<Rightarrow> None
                | Some s \<Rightarrow>
                    if obj_id s \<noteq> Some ''commcaresession''
                    then Some (''#case/'' @
                               (if obj_id s \<noteq> Some ''case'' then str_of (obj_id s) @ ''/'' else []))
                    else None);
             hashtag = (case hashtagPrefix of None \<Rightarrow> None | Some p \<Rightarrow> Some (p @ ident))
         in (Some \<lparr>n_name = t_name tree, n_hashtag = hashtag, n_hashtagPrefix = hashtagPrefix,
                    n_parentPath = parentPath, n_xpath = path, n_index = index,
                    n_sourceInfo = info, n_getNodes = t_getNodes tree,
                    n_recursive = t_recursive tree\<rparr>,
             seen1)))"

text \<open>
  \<^verbatim>\<open>_.sortBy(list, "text")\<close> of the underscore library: a stable sort in ascending order of
  the named property, values without the property (\<^verbatim>\<open>undefined\<close>) last. The node objects
  made by \<^verbatim>\<open>node\<close> have no property \<^verbatim>\<open>text\<close>, and neither has \<^verbatim>\<open>null\<close>.
\<close>

fun js_less :: "string \<Rightarrow> string \<Rightarrow> bool" where
  "js_less [] [] = False"
| "js_less [] (y # ys) = True"
| "js_less (x # xs) [] = False"
| "js_less (x # xs) (y # ys) = ((of_char x :: nat) < of_char y \<or> (x = y \<and> js_less xs ys))"

fun sorts_after :: "string option \<Rightarrow> string option \<Rightarrow> bool" where
  "sorts_after None None = False"
| "sorts_after None (Some b) = True"
| "sorts_after (Some a) None = False"
| "sorts_after (Some a) (Some b) = js_less b a"

fun insert_by :: "('a \<Rightarrow> string option) \<Rightarrow> 'a \<Rightarrow> 'a list \<Rightarrow> 'a list" where
  "insert_by f x [] = [x]"
| "insert_by f x (y # ys) = (if sorts_after (f x) (f y) then y # insert_by f x ys else x # y # ys)"

definition sortBy :: "('a \<Rightarrow> string option) \<Rightarrow> 'a list \<Rightarrow> 'a list" where
  "sortBy f xs = foldr (insert_by f) xs []"

definition text_of :: "data_node option \<Rightarrow> string option" where
  "text_of n = None"

text \<open>\<^verbatim>\<open>_.map\<close> with a callback that updates \<^verbatim>\<open>seen\<close>: the entries are visited in order.\<close>

fun map_seen :: "('s \<Rightarrow> 'a \<Rightarrow> 'b \<times> 's) \<Rightarrow> 's \<Rightarrow> 'a list \<Rightarrow> 'b list \<times> 's" where
  "map_seen f s [] = ([], s)"
| "map_seen f s (x # xs) =
     (case f s x of (y, s1) \<Rightarrow> (case map_seen f s1 xs of (ys, s2) \<Rightarrow> (y # ys, s2)))"

text \<open>\<^verbatim>\<open>{reference: {subset: subset, key: "@case_id"}}\<close>, the item of a relation.\<close>

definition related_item :: "string \<Rightarrow> dsobj" where
  "related_item sub =
     DSObj None None None None None
       (Some \<lparr>ref_source = None, ref_subset = Some sub, ref_key = Some ''@case_id''\<rparr>)
       None None None"

text \<open>
  \<^verbatim>\<open>getNodes(source, path, info)\<close>: the nodes of the structure entries, without the
  \<^verbatim>\<open>null\<close>s, then the nodes of the relations in front of them.
\<close>

definition getNodes ::
  "dsobj list \<Rightarrow> string list \<Rightarrow> string set \<Rightarrow> dsobj option \<Rightarrow> string \<Rightarrow> info \<Rightarrow>
     data_node option list \<times> string set" where
  "getNodes srcs invalid seen source path info =
     (let entries = (case source of None \<Rightarrow> []
                     | Some s \<Rightarrow> (case obj_structure s of None \<Rightarrow> [] | Some es \<Rightarrow> es));
          (made, seen1) = map_seen (node srcs invalid source (Some path) info False) seen entries;
          nodes = sortBy text_of (map Some (compact made))
      in case (case source of None \<Rightarrow> None | Some s \<Rightarrow> obj_related s) of
           None \<Rightarrow> (nodes, seen1)
         | Some related \<Rightarrow>
             (let (made2, seen2) =
                    map_seen (\<lambda>sn (relation, sub).
                                node srcs invalid source (Some (path @ ''/index'')) info True sn
                                  (relation, related_item sub))
                      seen1 related
              in (sortBy text_of made2 @ nodes, seen2)))"

text \<open>An upper bound of the nodes made from an object while \<^verbatim>\<open>seen\<close> stays as it is.\<close>

fun osz :: "dsobj \<Rightarrow> nat" where
  "osz (DSObj i u p n st r ss k rel) =
     (case st of None \<Rightarrow> 0 | Some es \<Rightarrow> sum_list (map (\<lambda>e. 2 + osz (snd e)) es)) +
     2 * (case rel of None \<Rightarrow> 0 | Some rs \<Rightarrow> length rs)"


section \<open>The hashtag map compiler\<close>

record hashtags =
  h_map :: "string \<rightharpoonup> string"
  h_transforms :: "string \<rightharpoonup> (string \<Rightarrow> string)"

fun str_of_null :: "string option \<Rightarrow> string" where
  "str_of_null None = ''null''"
| "str_of_null (Some s) = s"

text \<open>
  The first statement of the callback of \<^verbatim>\<open>walk\<close>: a node with a hashtag that is not an index
  node is entered into \<^verbatim>\<open>hashtags.map\<close> and \<^verbatim>\<open>hashtags.transforms\<close>.
\<close>

definition record_hashtag :: "data_node \<Rightarrow> hashtags \<Rightarrow> hashtags" where
  "record_hashtag n h =
     (if truthy (n_hashtag n) \<and> \<not> n_index n
      then h\<lparr>h_map := (h_map h)(str_of_null (n_hashtag n) \<mapsto> n_xpath n),
             h_transforms := (h_transforms h)(str_of_null (n_hashtagPrefix n) \<mapsto>
                                (\<lambda>prop. str_of_null (n_parentPath n) @ ''/'' @ prop))\<rparr>
      else h)"

text \<open>
  \<^verbatim>\<open>walk(nodes, hashtags)\<close>. The state is the \<^verbatim>\<open>hashtags\<close> object together with \<^verbatim>\<open>seen\<close>, which
  the calls of \<^verbatim>\<open>node.getNodes()\<close> update. Each node object is visited once, so each closure
  is called once and the memo of \<^verbatim>\<open>getTree\<close> is never read. A \<^verbatim>\<open>null\<close> in the list raises.
\<close>

function walk ::
  "dsobj list \<Rightarrow> string list \<Rightarrow> data_node option list \<Rightarrow> hashtags \<times> string set \<Rightarrow>
     error + hashtags \<times> string set" where
  "walk srcs invalid [] st = Inr st"
| "walk srcs invalid (None # nodes) st = Inl TypeError"
| "walk srcs invalid (Some n # nodes) st =
     (case st of (h, seen) \<Rightarrow>
      if n_recursive n then walk srcs invalid nodes (record_hashtag n h, seen)
      else
        (case getNodes srcs invalid seen (th_source (n_getNodes n)) (th_path (n_getNodes n))
                (th_info (n_getNodes n)) of
           (children, seen1) \<Rightarrow>
             (case walk srcs invalid children (record_hashtag n h, seen1) of
                Inl e \<Rightarrow> Inl e
              | Inr st2 \<Rightarrow> walk srcs invalid nodes st2)))"
  by pat_completeness auto

text \<open>
  Termination: every reference that is followed and expanded adds an id of a descriptor or
  of a subset to \<^verbatim>\<open>seen\<close>, and between two such additions the walk descends into the finite
  structure of one object.
\<close>

definition known_ids :: "dsobj list \<Rightarrow> string set" where
  "known_ids srcs =
     (\<Union>s \<in> set srcs. insert (str_of (obj_id s))
        ((\<lambda>sub. str_of (obj_id sub)) ` (case obj_subsets s of None \<Rightarrow> {} | Some l \<Rightarrow> set l)))"

fun osz_opt :: "dsobj option \<Rightarrow> nat" where
  "osz_opt None = 0"
| "osz_opt (Some s) = osz s"

definition tree_weight :: "bool \<Rightarrow> thunk \<Rightarrow> nat" where
  "tree_weight r th = (if r then 0 else 1 + osz_opt (th_source th))"

fun node_weight :: "data_node option \<Rightarrow> nat" where
  "node_weight None = 1"
| "node_weight (Some n) = 1 + tree_weight (n_recursive n) (n_getNodes n)"

definition nodes_weight :: "data_node option list \<Rightarrow> nat" where
  "nodes_weight ns = sum_list (map node_weight ns)"

lemma finite_known_ids: "finite (known_ids srcs)"
  by (auto simp: known_ids_def split: option.splits)

lemma indexBy_id_mem: "indexBy_id srcs k = Some s \<Longrightarrow> s \<in> set srcs"
  by (auto simp: indexBy_id_def dest!: map_of_SomeD)

lemma findWhere_mem: "findWhere l sid = Some x \<Longrightarrow> x \<in> set l"
  by (auto simp: findWhere_def find_Some_iff)

lemma getTree_seen:
  assumes "getTree srcs seen item ident path info = (t, seen1)"
  shows "seen \<subseteq> seen1" and "seen1 \<subseteq> seen \<union> known_ids srcs"
    and "seen1 = seen \<Longrightarrow> tree_weight (t_recursive t) (t_getNodes t) \<le> 1 + osz item"
  using assms
  by (auto simp: getTree_def select_subset_def Let_def tree_weight_def known_ids_def
      split: option.splits if_splits dest!: indexBy_id_mem findWhere_mem)


lemma node_seen:
  assumes "node srcs invalid source parentPath info index seen entry = (r, seen1)"
  shows "seen \<subseteq> seen1 \<and> seen1 \<subseteq> seen \<union> known_ids srcs
     \<and> (seen1 = seen \<longrightarrow> node_weight r \<le> 2 + osz (snd entry))"
proof -
  obtain ident item where e: "entry = (ident, item)" by (cases entry)
  show ?thesis
  proof (cases "ident \<in> set invalid")
    case True
    with assms e have "r = None" "seen1 = seen" by (simp_all add: node_def)
    then show ?thesis by simp
  next
    case False
    let ?path = "if truthy parentPath then str_of parentPath @ ''/'' @ ident else ident"
    obtain t s1 where g: "getTree srcs seen item ident ?path info = (t, s1)"
      by (cases "getTree srcs seen item ident ?path info")
    from assms e False g have s1: "seen1 = s1"
      and r: "\<exists>n. r = Some n \<and> n_recursive n = t_recursive t \<and> n_getNodes n = t_getNodes t"
      by (auto simp: node_def Let_def)
    from getTree_seen [OF g] s1 r e show ?thesis
      by auto
  qed
qed

lemma map_seen_measure:
  assumes step: "\<And>s x y s1. f s x = (y, s1) \<Longrightarrow>
             s \<subseteq> s1 \<and> s1 \<subseteq> s \<union> K \<and> (s1 = s \<longrightarrow> node_weight y \<le> b x)"
    and "map_seen f s xs = (ys, s2)"
  shows "s \<subseteq> s2 \<and> s2 \<subseteq> s \<union> K \<and> (s2 = s \<longrightarrow> nodes_weight ys \<le> sum_list (map b xs))"
  using assms(2)
proof (induction xs arbitrary: s ys s2)
  case Nil
  then show ?case by (simp add: nodes_weight_def)
next
  case (Cons x xs)
  obtain y s1 where f: "f s x = (y, s1)" by (cases "f s x")
  obtain zs s3 where m: "map_seen f s1 xs = (zs, s3)" by (cases "map_seen f s1 xs")
  from Cons.prems f m have eq: "ys = y # zs" "s2 = s3" by simp_all
  from step [OF f] have a: "s \<subseteq> s1" "s1 \<subseteq> s \<union> K" "s1 = s \<longrightarrow> node_weight y \<le> b x"
    by simp_all
  from Cons.IH [OF m] have b: "s1 \<subseteq> s3" "s3 \<subseteq> s1 \<union> K"
    "s3 = s1 \<longrightarrow> nodes_weight zs \<le> sum_list (map b xs)" by simp_all
  have "s2 = s \<longrightarrow> nodes_weight ys \<le> sum_list (map b (x # xs))"
  proof
    assume "s2 = s"
    with a b eq have "s1 = s" "s3 = s1" by auto
    with a b eq show "nodes_weight ys \<le> sum_list (map b (x # xs))"
      by (simp add: nodes_weight_def)
  qed
  with a b eq show ?case by auto
qed

lemma insert_by_text_of: "insert_by text_of x ys = x # ys"
  by (cases ys) (simp_all add: text_of_def)

lemma sortBy_text_of: "sortBy text_of xs = xs"
  by (induction xs) (simp_all add: sortBy_def insert_by_text_of)

lemma nodes_weight_compact: "nodes_weight (map Some (compact ys)) \<le> nodes_weight ys"
proof (induction ys)
  case Nil
  show ?case by (simp add: compact_def nodes_weight_def map_filter_simps)
next
  case (Cons y ys)
  then show ?case
    by (cases y) (simp_all add: compact_def nodes_weight_def map_filter_simps)
qed

lemma getNodes_measure:
  assumes "getNodes srcs invalid seen source path info = (children, seen1)"
  shows "seen \<subseteq> seen1 \<and> seen1 \<subseteq> seen \<union> known_ids srcs
     \<and> (seen1 = seen \<longrightarrow> nodes_weight children \<le> osz_opt source)"
proof -
  let ?entries = "case source of None \<Rightarrow> []
                     | Some s \<Rightarrow> (case obj_structure s of None \<Rightarrow> [] | Some es \<Rightarrow> es)"
  let ?f = "node srcs invalid source (Some path) info False"
  let ?g = "\<lambda>sn (relation, sub).
              node srcs invalid source (Some (path @ ''/index'')) info True sn
                (relation, related_item sub)"
  obtain made s1 where m1: "map_seen ?f seen ?entries = (made, s1)"
    by (cases "map_seen ?f seen ?entries")
  have p1: "seen \<subseteq> s1 \<and> s1 \<subseteq> seen \<union> known_ids srcs
      \<and> (s1 = seen \<longrightarrow> nodes_weight made \<le> sum_list (map (\<lambda>e. 2 + osz (snd e)) ?entries))"
    by (rule map_seen_measure [OF _ m1]) (rule node_seen)
  show ?thesis
  proof (cases "case source of None \<Rightarrow> None | Some s \<Rightarrow> obj_related s")
    case None
    with assms m1 have c: "children = map Some (compact made)" "seen1 = s1"
      by (simp_all add: getNodes_def Let_def sortBy_text_of)
    have "sum_list (map (\<lambda>e. 2 + osz (snd e)) ?entries) \<le> osz_opt source"
      by (cases source; cases "the source") (auto split: option.splits)
    with p1 c nodes_weight_compact [of made] show ?thesis by auto
  next
    case (Some related)
    obtain made2 s2 where m2: "map_seen ?g s1 related = (made2, s2)"
      by (cases "map_seen ?g s1 related")
    from assms m1 m2 Some have c: "children = made2 @ map Some (compact made)" "seen1 = s2"
      by (simp_all add: getNodes_def Let_def sortBy_text_of)
    have p2: "s1 \<subseteq> s2 \<and> s2 \<subseteq> s1 \<union> known_ids srcs
      \<and> (s2 = s1 \<longrightarrow> nodes_weight made2 \<le> sum_list (map (\<lambda>e. 2) related))"
    proof (rule map_seen_measure [OF _ m2])
      fix s x y s3 assume "?g s x = (y, s3)"
      then show "s \<subseteq> s3 \<and> s3 \<subseteq> s \<union> known_ids srcs \<and> (s3 = s \<longrightarrow> node_weight y \<le> 2)"
        using node_seen [of srcs invalid source "Some (path @ ''/index'')" info True s
            "(fst x, related_item (snd x))" y s3]
        by (cases x) (auto simp: related_item_def)
    qed
    have "sum_list (map (\<lambda>e. 2 + osz (snd e)) ?entries) + sum_list (map (\<lambda>e. 2) related)
            \<le> osz_opt source"
      using Some by (cases source; cases "the source") (auto split: option.splits simp: sum_list_triv)
    moreover have "seen1 = seen \<longrightarrow> s1 = seen \<and> s2 = s1"
      using p1 p2 c by auto
    moreover have "nodes_weight children = nodes_weight made2 + nodes_weight (map Some (compact made))"
      by (simp add: c nodes_weight_def)
    ultimately show ?thesis
      using p1 p2 c nodes_weight_compact [of made] by auto
  qed
qed


lemma walk_seen_mono:
  "walk_dom (srcs, invalid, ns, st) \<Longrightarrow> walk srcs invalid ns st = Inr st1 \<Longrightarrow> snd st \<subseteq> snd st1"
proof (induction srcs invalid ns st arbitrary: st1 rule: walk.pinduct)
  case (1 srcs invalid st)
  then show ?case by (simp add: walk.psimps)
next
  case (2 srcs invalid nodes st)
  then show ?case by (simp add: walk.psimps)
next
  case (3 srcs invalid n nodes st)
  obtain h seen where st: "st = (h, seen)" by (cases st)
  show ?case
  proof (cases "n_recursive n")
    case True
    with 3(1) 3(5) st have "walk srcs invalid nodes (record_hashtag n h, seen) = Inr st1"
      by (simp add: walk.psimps)
    from 3(2) [OF st [symmetric] True this] st show ?thesis by simp
  next
    case False
    obtain children seen1 where g:
      "getNodes srcs invalid seen (th_source (n_getNodes n)) (th_path (n_getNodes n))
         (th_info (n_getNodes n)) = (children, seen1)"
      by (cases "getNodes srcs invalid seen (th_source (n_getNodes n)) (th_path (n_getNodes n))
         (th_info (n_getNodes n))")
    from 3(1) 3(5) st False g obtain st2 where
      w1: "walk srcs invalid children (record_hashtag n h, seen1) = Inr st2"
      and w2: "walk srcs invalid nodes st2 = Inr st1"
      by (auto simp: walk.psimps split: sum.splits)
    have a: "seen \<subseteq> seen1" using getNodes_measure [OF g] by simp
    have b: "seen1 \<subseteq> snd st2"
      using 3(3) [OF st [symmetric] False g [symmetric] w1] by simp
    have c: "snd st2 \<subseteq> snd st1"
      using 3(4) [OF st [symmetric] False g [symmetric] w1 w2] by simp
    from a b c st show ?thesis by auto
  qed
qed

lemma card_diff_seen:
  assumes "finite K" and "s \<subseteq> s1"
  shows "card (K - s1) \<le> card (K - s)"
    and "s1 \<subseteq> s \<union> K \<Longrightarrow> s1 \<noteq> s \<Longrightarrow> card (K - s1) < card (K - s)"
proof -
  from assms show "card (K - s1) \<le> card (K - s)"
    by (intro card_mono) auto
  assume "s1 \<subseteq> s \<union> K" "s1 \<noteq> s"
  with assms(2) have "K - s1 \<subset> K - s" by auto
  with assms(1) show "card (K - s1) < card (K - s)"
    by (intro psubset_card_mono) auto
qed

termination walk
proof (relation "inv_image (less_than <*lex*> less_than)
         (\<lambda>(srcs, invalid, ns, st). (card (known_ids srcs - snd st), nodes_weight ns))",
       goal_cases)
  case 1
  show ?case by auto
next
  case (2 srcs invalid n nodes st h seen)
  then show ?case by (auto simp: nodes_weight_def)
next
  case (3 srcs invalid n nodes st h seen children seen1)
  then have g: "getNodes srcs invalid seen (th_source (n_getNodes n)) (th_path (n_getNodes n))
         (th_info (n_getNodes n)) = (children, seen1)" by simp
  note m = getNodes_measure [OF g]
  show ?case
  proof (cases "seen1 = seen")
    case True
    with m have "nodes_weight children \<le> osz_opt (th_source (n_getNodes n))" by simp
    with 3 True show ?thesis
      by (auto simp: nodes_weight_def tree_weight_def)
  next
    case False
    with m card_diff_seen(2) [OF finite_known_ids, of seen seen1 srcs] 3 show ?thesis
      by auto
  qed
next
  case (4 srcs invalid n nodes st h seen children seen1 st2)
  then have g: "getNodes srcs invalid seen (th_source (n_getNodes n)) (th_path (n_getNodes n))
         (th_info (n_getNodes n)) = (children, seen1)" by simp
  from 4 have sub: "seen \<subseteq> snd st2"
    using getNodes_measure [OF g] walk_seen_mono [of srcs invalid children "(record_hashtag n h, seen1)" st2]
    by auto
  from card_diff_seen(1) [OF finite_known_ids sub, of srcs] 4 show ?case
    by (auto simp: nodes_weight_def)
qed

section \<open>The builders\<close>

text \<open>
  \<^verbatim>\<open>builders.dataNodes\<close>, given the value of \<^verbatim>\<open>getValue(that, "sources")\<close> (\<open>None\<close> while the
  sources are not loaded) and \<^verbatim>\<open>that.invalidCaseProperties\<close>. \<open>Inr None\<close> is the result
  \<^verbatim>\<open>undefined\<close>. The object \<^verbatim>\<open>seen\<close> lives on in the closures of the nodes, so it is returned
  with them.
\<close>

definition builders_dataNodes ::
  "dsobj list option \<Rightarrow> string list \<Rightarrow> error + (data_node option list \<times> string set) option" where
  "builders_dataNodes sources invalid =
     (case sources of
        None \<Rightarrow> Inr None
      | Some srcs \<Rightarrow>
          (case indexBy_id srcs ''commcaresession'' of
             None \<Rightarrow> Inr None
           | Some source \<Rightarrow>
               (let info = Info (omit_structure source) None;
                    path = instance_path (str_of (obj_id source)) (str_of (obj_path source))
                in case node srcs invalid (Some source) None info False {} (path, source) of
                     (None, seen) \<Rightarrow> Inl TypeError
                   | (Some root, seen) \<Rightarrow>
                       Inr (Some (getNodes srcs invalid seen (th_source (n_getNodes root))
                                    (th_path (n_getNodes root)) (th_info (n_getNodes root)))))))"

text \<open>\<^verbatim>\<open>builders.hashtags\<close> and \<^verbatim>\<open>builders.hashtagMap\<close>, run on a fresh build of the nodes.\<close>

definition builders_hashtags :: "dsobj list option \<Rightarrow> string list \<Rightarrow> error + hashtags option" where
  "builders_hashtags sources invalid =
     (case builders_dataNodes sources invalid of
        Inl e \<Rightarrow> Inl e
      | Inr None \<Rightarrow> Inr None
      | Inr (Some (nodes, seen)) \<Rightarrow>
          (case walk (case sources of None \<Rightarrow> [] | Some srcs \<Rightarrow> srcs) invalid nodes
                  (\<lparr>h_map = Map.empty, h_transforms = Map.empty\<rparr>, seen) of
             Inl e \<Rightarrow> Inl e
           | Inr (h, seen1) \<Rightarrow> Inr (Some h)))"

definition builders_hashtagMap ::
  "dsobj list option \<Rightarrow> string list \<Rightarrow> error + (string \<rightharpoonup> string) option" where
  "builders_hashtagMap sources invalid =
     (case builders_hashtags sources invalid of
        Inl e \<Rightarrow> Inl e
      | Inr None \<Rightarrow> Inr None
      | Inr (Some h) \<Rightarrow> Inr (Some (h_map h)))"

section \<open>Example descriptors\<close>

definition leaf :: dsobj where
  "leaf = DSObj None None None None None None None None None"

definition ref_to :: "string \<Rightarrow> dsobj" where
  "ref_to src = DSObj None None None None None
      (Some \<lparr>ref_source = Some src, ref_subset = None, ref_key = Some ''@id''\<rparr>) None None None"

definition source_of :: "string \<Rightarrow> string \<Rightarrow> (string \<times> dsobj) list \<Rightarrow> dsobj" where
  "source_of i p st = DSObj (Some i) (Some []) (Some p) None (Some st) None None None None"


lemmas build_simps = builders_hashtagMap_def builders_hashtags_def builders_dataNodes_def
    source_of_def ref_to_def leaf_def select_subset_def
    node_def getTree_def getNodes_def indexBy_id_def instance_path_def or_else_def Let_def
    compact_def map_filter_simps sortBy_text_of record_hashtag_def findWhere_def related_item_def

section \<open>Properties of the tree builder\<close>

lemma map_seen_set:
  "map_seen f s xs = (ys, s1) \<Longrightarrow> y \<in> set ys \<Longrightarrow> \<exists>s0 x s2. x \<in> set xs \<and> f s0 x = (y, s2)"
proof (induction xs arbitrary: s ys s1)
  case Nil
  then show ?case by simp
next
  case (Cons x xs)
  obtain y0 s0 where f: "f s x = (y0, s0)" by (cases "f s x")
  obtain zs s3 where m: "map_seen f s0 xs = (zs, s3)" by (cases "map_seen f s0 xs")
  from Cons.prems f m have "y = y0 \<or> y \<in> set zs" by auto
  then show ?case
  proof
    assume "y = y0"
    with f show ?thesis by auto
  next
    assume "y \<in> set zs"
    from Cons.IH [OF m this] show ?thesis by auto
  qed
qed

lemma map_seen_length: "length (fst (map_seen f s xs)) = length xs"
proof (induction xs arbitrary: s)
  case Nil
  show ?case by simp
next
  case (Cons x xs)
  obtain y s0 where f: "f s x = (y, s0)" by (cases "f s x")
  obtain zs s3 where m: "map_seen f s0 xs = (zs, s3)" by (cases "map_seen f s0 xs")
  from Cons.IH [of s0] f m show ?case by simp
qed

lemma node_fields:
  assumes "node srcs invalid source parentPath info index seen (ident, item) = (Some n, seen1)"
  shows "n_index n = index" and "n_parentPath n = parentPath"
    and "n_xpath n = (if truthy parentPath then str_of parentPath @ ''/'' @ ident else ident)"
    and "ident \<notin> set invalid"
    and "truthy (n_hashtag n) = (n_hashtag n \<noteq> None)"
  using assms
  by (auto simp: node_def Let_def split: if_splits prod.splits option.splits)

lemma set_compact: "set (compact ys) = {y. Some y \<in> set ys}"
  by (induction ys) (auto simp: compact_def map_filter_simps split: option.splits)

lemma getNodes_shape:
  "\<exists>rel str seen1. getNodes srcs invalid seen source path info = (rel @ map Some str, seen1)
     \<and> (\<forall>n \<in> set str. \<not> n_index n \<and> n_parentPath n = Some path
            \<and> truthy (n_hashtag n) = (n_hashtag n \<noteq> None))
     \<and> (\<forall>n. Some n \<in> set rel \<longrightarrow> n_index n \<and> n_parentPath n = Some (path @ ''/index'')
            \<and> truthy (n_hashtag n) = (n_hashtag n \<noteq> None))
     \<and> length rel = (case source of None \<Rightarrow> 0
                      | Some s \<Rightarrow> (case obj_related s of None \<Rightarrow> 0 | Some r \<Rightarrow> length r))"
proof -
  let ?entries = "case source of None \<Rightarrow> []
                     | Some s \<Rightarrow> (case obj_structure s of None \<Rightarrow> [] | Some es \<Rightarrow> es)"
  let ?f = "node srcs invalid source (Some path) info False"
  let ?g = "\<lambda>sn (relation, sub).
              node srcs invalid source (Some (path @ ''/index'')) info True sn
                (relation, related_item sub)"
  obtain made s1 where m1: "map_seen ?f seen ?entries = (made, s1)"
    by (cases "map_seen ?f seen ?entries")
  have str: "\<not> n_index n \<and> n_parentPath n = Some path \<and> truthy (n_hashtag n) = (n_hashtag n \<noteq> None)"
    if "n \<in> set (compact made)" for n
  proof -
    from that have "Some n \<in> set made" by (simp add: set_compact)
    from map_seen_set [OF m1 this] obtain s0 x s2 where "?f s0 x = (Some n, s2)" by blast
    then show ?thesis using node_fields [of srcs invalid source "Some path" info False s0 "fst x" "snd x" n s2]
      by simp
  qed
  show ?thesis
  proof (cases "case source of None \<Rightarrow> None | Some s \<Rightarrow> obj_related s")
    case None
    with m1 have "getNodes srcs invalid seen source path info = ([] @ map Some (compact made), s1)"
      by (simp add: getNodes_def Let_def sortBy_text_of)
    moreover from None have "(case source of None \<Rightarrow> 0
                      | Some s \<Rightarrow> (case obj_related s of None \<Rightarrow> 0 | Some r \<Rightarrow> length r)) = (0::nat)"
      by (auto split: option.splits)
    ultimately show ?thesis using str by (intro exI [of _ "[]"] exI [of _ "compact made"] exI [of _ s1]) simp
  next
    case (Some related)
    obtain made2 s2 where m2: "map_seen ?g s1 related = (made2, s2)"
      by (cases "map_seen ?g s1 related")
    from m1 m2 Some have g: "getNodes srcs invalid seen source path info = (made2 @ map Some (compact made), s2)"
      by (simp add: getNodes_def Let_def sortBy_text_of)
    have rel: "n_index n \<and> n_parentPath n = Some (path @ ''/index'') \<and> truthy (n_hashtag n) = (n_hashtag n \<noteq> None)"
      if "Some n \<in> set made2" for n
    proof -
      from map_seen_set [OF m2 that] obtain s0 x s3 where "?g s0 x = (Some n, s3)" by blast
      then show ?thesis
        using node_fields [of srcs invalid source "Some (path @ ''/index'')" info True s0 "fst x"
            "related_item (snd x)" n s3]
        by (cases x) simp
    qed
    have len: "length made2 = length related"
      using map_seen_length [of ?g s1 related] m2 by simp
    from Some have "(case source of None \<Rightarrow> 0
                      | Some s \<Rightarrow> (case obj_related s of None \<Rightarrow> 0 | Some r \<Rightarrow> length r)) = length related"
      by (auto split: option.splits)
    with g str rel len show ?thesis
      by (intro exI [of _ made2] exI [of _ "compact made"] exI [of _ s2]) simp
  qed
qed

















definition unsorted :: "dsobj list" where
  "unsorted =
     [source_of ''commcaresession'' ''/session''
        [(''zeta'', leaf), (''alpha'', DSObj None None None (Some ''Beta'') (Some []) None None None None)]]"

definition subset_of :: "string \<Rightarrow> (string \<times> dsobj) list \<Rightarrow> (string \<times> string) list option \<Rightarrow> dsobj" where
  "subset_of i st rel =
     DSObj (Some i) None None (Some i) (Some st) None None (Some ''@case_type'') rel"

definition ref_subset_to :: "string \<Rightarrow> string \<Rightarrow> dsobj" where
  "ref_subset_to src sub = DSObj None None None None None
      (Some \<lparr>ref_source = Some src, ref_subset = Some sub, ref_key = Some ''@case_id''\<rparr>)
      None None None"

definition casedb :: "dsobj list" where
  "casedb =
     [source_of ''commcaresession'' ''/session'' [(''case_id'', ref_subset_to ''casedb'' ''child'')],
      DSObj (Some ''casedb'') (Some []) (Some ''/cases/case'') None (Some [(''name'', leaf)]) None
        (Some [subset_of ''child'' [(''zeta'', leaf), (''alpha'', leaf)] (Some [(''parent'', ''mother'')]),
               subset_of ''mother'' [(''edd'', leaf)] None])
        None None]"

definition coloured :: "dsobj list" where
  "coloured =
     [source_of ''commcaresession'' ''/session'' [(''case_id'', ref_subset_to ''casedb'' ''sub'')],
      DSObj (Some ''casedb'') (Some []) (Some ''/cases/case'') None (Some [(''name'', leaf)]) None
        (Some [subset_of ''sub'' [(''color'', leaf)] None])
        None None]"

lemmas example_simps = unsorted_def casedb_def coloured_def subset_of_def ref_subset_to_def

lemma map_seen_node_xpath:
  "map (map_option n_xpath) (fst (map_seen (node srcs invalid source parentPath info index) seen es))
     = map (\<lambda>e. if fst e \<in> set invalid then None
                 else Some (if truthy parentPath then str_of parentPath @ ''/'' @ fst e else fst e)) es"
proof (induction es arbitrary: seen)
  case Nil
  show ?case by simp
next
  case (Cons e es)
  let ?f = "node srcs invalid source parentPath info index"
  obtain y s0 where f: "?f seen e = (y, s0)" by (cases "?f seen e")
  obtain zs s3 where m: "map_seen ?f s0 es = (zs, s3)" by (cases "map_seen ?f s0 es")
  from f have "map_option n_xpath y = (if fst e \<in> set invalid then None
                 else Some (if truthy parentPath then str_of parentPath @ ''/'' @ fst e else fst e))"
    by (cases e) (auto simp: node_def Let_def split: if_splits prod.splits)
  with Cons.IH [of s0] f m show ?case by simp
qed

lemma map_compact_xpath:
  "map (map_option n_xpath) (map Some (compact ys)) = filter (\<lambda>y. y \<noteq> None) (map (map_option n_xpath) ys)"
proof (induction ys)
  case Nil
  show ?case by (simp add: compact_def)
next
  case (Cons y ys)
  then show ?case by (cases y) (simp_all add: compact_def)
qed

lemma filter_valid_xpath:
  "filter (\<lambda>y. y \<noteq> None) (map (\<lambda>e. if P e then None else Some (f e)) es)
     = map (\<lambda>e. Some (f e)) (filter (\<lambda>e. \<not> P e) es)"
  by (induction es) simp_all

text \<open>
  The nodes of a source without relations come in the order of the entries of its
  structure: \<^verbatim>\<open>sortBy("text")\<close> finds no \<^verbatim>\<open>text\<close> to sort by.
\<close>

lemma getNodes_keeps_order:
  assumes "obj_related s = None" and "obj_structure s = Some es"
  shows "map (map_option n_xpath) (fst (getNodes srcs invalid seen (Some s) path info))
     = map (\<lambda>e. Some (if path \<noteq> [] then path @ ''/'' @ fst e else fst e))
         (filter (\<lambda>e. fst e \<notin> set invalid) es)"
proof -
  let ?f = "node srcs invalid (Some s) (Some path) info False"
  obtain made s1 where m1: "map_seen ?f seen es = (made, s1)"
    by (cases "map_seen ?f seen es")
  have x: "map (map_option n_xpath) made
     = map (\<lambda>e. if fst e \<in> set invalid then None
                 else Some (if path \<noteq> [] then path @ ''/'' @ fst e else fst e)) es"
    using map_seen_node_xpath [of srcs invalid "Some s" "Some path" info False seen es] m1
    by simp
  have "fst (getNodes srcs invalid seen (Some s) path info) = map Some (compact made)"
    using assms m1 by (simp add: getNodes_def Let_def sortBy_text_of)
  then have "map (map_option n_xpath) (fst (getNodes srcs invalid seen (Some s) path info))
      = filter (\<lambda>y. y \<noteq> None) (map (map_option n_xpath) made)"
    by (simp only: map_compact_xpath)
  also have "\<dots> = map (\<lambda>e. Some (if path \<noteq> [] then path @ ''/'' @ fst e else fst e))
                       (filter (\<lambda>e. fst e \<notin> set invalid) es)"
    by (simp only: x filter_valid_xpath)
  finally show ?thesis .
qed


text \<open>
  Relation nodes come before the nodes of the structure: the list is the index nodes of
  the relations followed by the nodes of the entries, none of which is an index node.
\<close>

lemma getNodes_related_first:
  "\<exists>rel str. fst (getNodes srcs invalid seen source path info) = rel @ map Some str
     \<and> (\<forall>n \<in> set str. \<not> n_index n) \<and> (\<forall>n. Some n \<in> set rel \<longrightarrow> n_index n)"
proof -
  from getNodes_shape [of srcs invalid seen source path info]
  obtain rel str seen1 where
    "getNodes srcs invalid seen source path info = (rel @ map Some str, seen1)"
    "\<forall>n \<in> set str. \<not> n_index n" "\<forall>n. Some n \<in> set rel \<longrightarrow> n_index n"
    by blast
  then show ?thesis
    by (intro exI [of _ rel] exI [of _ str]) simp
qed

lemma js_less_examples: "js_less ''Beta'' ''zeta''" "js_less ''alpha'' ''zeta''"
  by code_simp+

text \<open>
  C7 on the code: the session source below has the entries \<^verbatim>\<open>zeta\<close> and \<^verbatim>\<open>alpha\<close>, the
  second with the display name \<^verbatim>\<open>Beta\<close>. The nodes come out as \<^verbatim>\<open>zeta\<close>, \<^verbatim>\<open>Beta\<close>, in the order of
  the structure, although \<^verbatim>\<open>Beta\<close> sorts before \<^verbatim>\<open>zeta\<close>. Under the subset \<^verbatim>\<open>child\<close> of the
  second example the node of the relation \<^verbatim>\<open>parent\<close> comes first, then \<^verbatim>\<open>zeta\<close> and \<^verbatim>\<open>alpha\<close>,
  again unsorted.
\<close>

theorem C7_siblings_keep_structure_order:
  "(case builders_dataNodes (Some unsorted) [] of
      Inr (Some (nodes, seen)) \<Rightarrow> map (map_option n_name) nodes = [Some ''zeta'', Some ''Beta'']
    | _ \<Rightarrow> False)
   \<and> js_less ''Beta'' ''zeta''
   \<and> (case builders_dataNodes (Some casedb) [] of
      Inr (Some ([Some c], seen)) \<Rightarrow>
        map (map_option n_name)
          (fst (getNodes casedb [] seen (th_source (n_getNodes c)) (th_path (n_getNodes c))
                  (th_info (n_getNodes c))))
          = [Some ''mother'', Some ''zeta'', Some ''alpha'']
        \<and> map (map_option n_index)
          (fst (getNodes casedb [] seen (th_source (n_getNodes c)) (th_path (n_getNodes c))
                  (th_info (n_getNodes c))))
          = [Some True, Some False, Some False]
    | _ \<Rightarrow> False)
   \<and> js_less ''alpha'' ''zeta''"
proof -
  have a: "(case builders_dataNodes (Some unsorted) [] of
      Inr (Some (nodes, seen)) \<Rightarrow> map (map_option n_name) nodes = [Some ''zeta'', Some ''Beta'']
    | _ \<Rightarrow> False)"
    by (simp add: build_simps example_simps)
  have b: "(case builders_dataNodes (Some casedb) [] of
      Inr (Some ([Some c], seen)) \<Rightarrow>
        map (map_option n_name)
          (fst (getNodes casedb [] seen (th_source (n_getNodes c)) (th_path (n_getNodes c))
                  (th_info (n_getNodes c))))
          = [Some ''mother'', Some ''zeta'', Some ''alpha'']
        \<and> map (map_option n_index)
          (fst (getNodes casedb [] seen (th_source (n_getNodes c)) (th_path (n_getNodes c))
                  (th_info (n_getNodes c))))
          = [Some True, Some False, Some False]
    | _ \<Rightarrow> False)"
    by (simp add: build_simps example_simps)
  from a b js_less_examples show ?thesis by (intro conjI)
qed

text \<open>
  C4 on the code: the reference selects the subset \<^verbatim>\<open>sub\<close>, whose structure is
  \<^verbatim>\<open>{color}\<close>, of a source whose structure is \<^verbatim>\<open>{name}\<close>. The children of the reference node
  are made from the structure of the subset alone, so the compiled map has the hashtag of
  \<^verbatim>\<open>color\<close> and none for \<^verbatim>\<open>name\<close>.
\<close>

theorem C4_subset_structure_replaces_source_structure:
  "(case builders_hashtagMap (Some coloured) [] of
      Inr (Some m) \<Rightarrow>
        dom m = {''#case/sub/color''}
        \<and> m ''#case/sub/name'' = None \<and> m ''#case/casedb/name'' = None \<and> m ''#case/name'' = None
    | _ \<Rightarrow> False)"
  by (simp add: build_simps example_simps)

section \<open>The nodes visited by the walk\<close>

text \<open>
  The nodes that the callback of \<^verbatim>\<open>walk\<close> is called on, in the order of the calls: the
  recursion is that of \<^verbatim>\<open>walk\<close>, with the list of the nodes in place of the \<^verbatim>\<open>hashtags\<close>
  object.
\<close>

function walk_visits ::
  "dsobj list \<Rightarrow> string list \<Rightarrow> data_node option list \<Rightarrow> string set \<Rightarrow>
     error + data_node list \<times> string set" where
  "walk_visits srcs invalid [] seen = Inr ([], seen)"
| "walk_visits srcs invalid (None # nodes) seen = Inl TypeError"
| "walk_visits srcs invalid (Some n # nodes) seen =
     (if n_recursive n then
        (case walk_visits srcs invalid nodes seen of
           Inl e \<Rightarrow> Inl e
         | Inr (vs, seen2) \<Rightarrow> Inr (n # vs, seen2))
      else
        (case getNodes srcs invalid seen (th_source (n_getNodes n)) (th_path (n_getNodes n))
                (th_info (n_getNodes n)) of
           (children, seen1) \<Rightarrow>
             (case walk_visits srcs invalid children seen1 of
                Inl e \<Rightarrow> Inl e
              | Inr (vs1, seen2) \<Rightarrow>
                  (case walk_visits srcs invalid nodes seen2 of
                     Inl e \<Rightarrow> Inl e
                   | Inr (vs2, seen3) \<Rightarrow> Inr (n # vs1 @ vs2, seen3)))))"
  by pat_completeness auto

lemma walk_visits_seen_mono:
  "walk_visits_dom (srcs, invalid, ns, seen) \<Longrightarrow>
     walk_visits srcs invalid ns seen = Inr (vs, seen1) \<Longrightarrow> seen \<subseteq> seen1"
proof (induction srcs invalid ns seen arbitrary: vs seen1 rule: walk_visits.pinduct)
  case (1 srcs invalid seen)
  then show ?case by (simp add: walk_visits.psimps)
next
  case (2 srcs invalid nodes seen)
  then show ?case by (simp add: walk_visits.psimps)
next
  case (3 srcs invalid n nodes seen)
  show ?case
  proof (cases "n_recursive n")
    case True
    with 3(1) 3(5) obtain vs0 where "walk_visits srcs invalid nodes seen = Inr (vs0, seen1)"
      by (auto simp: walk_visits.psimps split: sum.splits)
    from 3(2) [OF True this] show ?thesis .
  next
    case False
    obtain children s1 where g:
      "getNodes srcs invalid seen (th_source (n_getNodes n)) (th_path (n_getNodes n))
         (th_info (n_getNodes n)) = (children, s1)"
      by (cases "getNodes srcs invalid seen (th_source (n_getNodes n)) (th_path (n_getNodes n))
         (th_info (n_getNodes n))")
    from 3(1) 3(5) False g obtain vs1 s2 vs2 where
      w1: "walk_visits srcs invalid children s1 = Inr (vs1, s2)"
      and w2: "walk_visits srcs invalid nodes s2 = Inr (vs2, seen1)"
      by (auto simp: walk_visits.psimps split: sum.splits)
    have a: "seen \<subseteq> s1" using getNodes_measure [OF g] by simp
    have b: "s1 \<subseteq> s2"
      using 3(3) [OF False g [symmetric] w1] .
    have c: "s2 \<subseteq> seen1"
      using 3(4) [OF False g [symmetric] w1 refl w2] .
    from a b c show ?thesis by auto
  qed
qed

termination walk_visits
proof (relation "inv_image (less_than <*lex*> less_than)
         (\<lambda>(srcs, invalid, ns, seen). (card (known_ids srcs - seen), nodes_weight ns))",
       goal_cases)
  case 1
  show ?case by auto
next
  case (2 srcs invalid n nodes seen)
  then show ?case by (auto simp: nodes_weight_def)
next
  case (3 srcs invalid n nodes seen children seen1)
  then have g: "getNodes srcs invalid seen (th_source (n_getNodes n)) (th_path (n_getNodes n))
         (th_info (n_getNodes n)) = (children, seen1)" by simp
  note m = getNodes_measure [OF g]
  show ?case
  proof (cases "seen1 = seen")
    case True
    with m have "nodes_weight children \<le> osz_opt (th_source (n_getNodes n))" by simp
    with 3 True g show ?thesis
      by (auto simp: nodes_weight_def tree_weight_def)
  next
    case False
    with m card_diff_seen(2) [OF finite_known_ids, of seen seen1 srcs] 3 g show ?thesis
      by auto
  qed
next
  case (4 srcs invalid n nodes seen children seen1 r vs1 seen2)
  then have g: "getNodes srcs invalid seen (th_source (n_getNodes n)) (th_path (n_getNodes n))
         (th_info (n_getNodes n)) = (children, seen1)" by simp
  from 4 have "seen1 \<subseteq> seen2"
    using walk_visits_seen_mono [of srcs invalid children seen1 vs1 seen2] by simp
  with getNodes_measure [OF g] have sub: "seen \<subseteq> seen2" by auto
  from card_diff_seen(1) [OF finite_known_ids sub, of srcs] show ?case
    by (auto simp: nodes_weight_def)
qed


lemma walk_by_visits:
  "walk srcs invalid ns (h, seen) =
     (case walk_visits srcs invalid ns seen of
        Inl e \<Rightarrow> Inl e
      | Inr (vs, seen1) \<Rightarrow> Inr (fold record_hashtag vs h, seen1))"
proof (induction srcs invalid ns seen arbitrary: h rule: walk_visits.induct)
  case (1 srcs invalid seen)
  show ?case by simp
next
  case (2 srcs invalid nodes seen)
  show ?case by simp
next
  case (3 srcs invalid n nodes seen)
  show ?case
  proof (cases "n_recursive n")
    case True
    with 3(1) [OF True, of "record_hashtag n h"] show ?thesis
      by (auto split: sum.splits)
  next
    case False
    obtain children s1 where g:
      "getNodes srcs invalid seen (th_source (n_getNodes n)) (th_path (n_getNodes n))
         (th_info (n_getNodes n)) = (children, s1)"
      by (cases "getNodes srcs invalid seen (th_source (n_getNodes n)) (th_path (n_getNodes n))
         (th_info (n_getNodes n))")
    note ih1 = 3(2) [OF False g [symmetric], of "record_hashtag n h"]
    show ?thesis
    proof (cases "walk_visits srcs invalid children s1")
      case (Inl e)
      with ih1 False g show ?thesis by simp
    next
      case (Inr r)
      obtain vs1 s2 where r: "r = (vs1, s2)" by (cases r)
      note ih2 = 3(3) [OF False g [symmetric] Inr [unfolded r] refl,
          of "fold record_hashtag vs1 (record_hashtag n h)"]
      from ih1 ih2 False g Inr r show ?thesis
        by (auto split: sum.splits)
    qed
  qed
qed

text \<open>A node made by \<^verbatim>\<open>node\<close> has no hashtag or a hashtag that is not the empty string.\<close>

definition built :: "data_node \<Rightarrow> bool" where
  "built n = (truthy (n_hashtag n) = (n_hashtag n \<noteq> None))"

lemma getNodes_built:
  "Some n \<in> set (fst (getNodes srcs invalid seen source path info)) \<Longrightarrow> built n"
proof -
  assume a: "Some n \<in> set (fst (getNodes srcs invalid seen source path info))"
  from getNodes_shape [of srcs invalid seen source path info]
  obtain rel str seen1 where
    "getNodes srcs invalid seen source path info = (rel @ map Some str, seen1)"
    "\<forall>n \<in> set str. truthy (n_hashtag n) = (n_hashtag n \<noteq> None)"
    "\<forall>n. Some n \<in> set rel \<longrightarrow> truthy (n_hashtag n) = (n_hashtag n \<noteq> None)"
    by blast
  with a show ?thesis by (auto simp: built_def)
qed

lemma walk_visits_built:
  "walk_visits srcs invalid ns seen = Inr (vs, seen1) \<Longrightarrow>
     (\<And>n. Some n \<in> set ns \<Longrightarrow> built n) \<Longrightarrow> v \<in> set vs \<Longrightarrow> built v"
proof (induction srcs invalid ns seen arbitrary: vs seen1 rule: walk_visits.induct)
  case (1 srcs invalid seen)
  then show ?case by simp
next
  case (2 srcs invalid nodes seen)
  then show ?case by simp
next
  case (3 srcs invalid n nodes seen)
  show ?case
  proof (cases "n_recursive n")
    case True
    with 3(4) obtain vs0 where w: "walk_visits srcs invalid nodes seen = Inr (vs0, seen1)"
      and vs: "vs = n # vs0"
      by (auto split: sum.splits)
    from 3(6) vs have "v = n \<or> v \<in> set vs0" by auto
    then show ?thesis
    proof
      assume "v = n" with 3(5) show ?thesis by simp
    next
      assume "v \<in> set vs0"
      from 3(1) [OF True w _ this] 3(5) show ?thesis by simp
    qed
  next
    case False
    obtain children s1 where g:
      "getNodes srcs invalid seen (th_source (n_getNodes n)) (th_path (n_getNodes n))
         (th_info (n_getNodes n)) = (children, s1)"
      by (cases "getNodes srcs invalid seen (th_source (n_getNodes n)) (th_path (n_getNodes n))
         (th_info (n_getNodes n))")
    from 3(4) False g obtain vs1 s2 vs2 where
      w1: "walk_visits srcs invalid children s1 = Inr (vs1, s2)"
      and w2: "walk_visits srcs invalid nodes s2 = Inr (vs2, seen1)"
      and vs: "vs = n # vs1 @ vs2"
      by (auto split: sum.splits)
    have cb: "built c" if "Some c \<in> set children" for c
      using getNodes_built [of c srcs invalid seen "th_source (n_getNodes n)" "th_path (n_getNodes n)"
          "th_info (n_getNodes n)"] g that by simp
    from 3(6) vs have "v = n \<or> v \<in> set vs1 \<or> v \<in> set vs2" by auto
    then show ?thesis
    proof (elim disjE)
      assume "v = n" with 3(5) show ?thesis by simp
    next
      assume "v \<in> set vs1"
      from 3(2) [OF False g [symmetric] w1 cb this] show ?thesis by simp
    next
      assume "v \<in> set vs2"
      from 3(3) [OF False g [symmetric] w1 refl w2 _ this] 3(5) show ?thesis by simp
    qed
  qed
qed


lemma walk_visits_origin:
  "walk_visits srcs invalid ns seen = Inr (vs, seen1) \<Longrightarrow> v \<in> set vs \<Longrightarrow>
     Some v \<in> set ns \<or>
     (\<exists>p \<in> set vs. \<not> n_recursive p \<and>
        (\<exists>sn. Some v \<in> set (fst (getNodes srcs invalid sn (th_source (n_getNodes p))
                                    (th_path (n_getNodes p)) (th_info (n_getNodes p))))))"
proof (induction srcs invalid ns seen arbitrary: vs seen1 rule: walk_visits.induct)
  case (1 srcs invalid seen)
  then show ?case by simp
next
  case (2 srcs invalid nodes seen)
  then show ?case by simp
next
  case (3 srcs invalid n nodes seen)
  show ?case
  proof (cases "n_recursive n")
    case True
    with 3(4) obtain vs0 where w: "walk_visits srcs invalid nodes seen = Inr (vs0, seen1)"
      and vs: "vs = n # vs0"
      by (auto split: sum.splits)
    from 3(5) vs have "v = n \<or> v \<in> set vs0" by auto
    then show ?thesis
    proof
      assume "v = n" then show ?thesis by simp
    next
      assume "v \<in> set vs0"
      from 3(1) [OF True w this] vs show ?thesis by auto
    qed
  next
    case False
    obtain children s1 where g:
      "getNodes srcs invalid seen (th_source (n_getNodes n)) (th_path (n_getNodes n))
         (th_info (n_getNodes n)) = (children, s1)"
      by (cases "getNodes srcs invalid seen (th_source (n_getNodes n)) (th_path (n_getNodes n))
         (th_info (n_getNodes n))")
    from 3(4) False g obtain vs1 s2 vs2 where
      w1: "walk_visits srcs invalid children s1 = Inr (vs1, s2)"
      and w2: "walk_visits srcs invalid nodes s2 = Inr (vs2, seen1)"
      and vs: "vs = n # vs1 @ vs2"
      by (auto split: sum.splits)
    from 3(5) vs have "v = n \<or> v \<in> set vs1 \<or> v \<in> set vs2" by auto
    then show ?thesis
    proof (elim disjE)
      assume "v = n" then show ?thesis by simp
    next
      assume "v \<in> set vs1"
      from 3(2) [OF False g [symmetric] w1 this]
      show ?thesis
      proof
        assume "Some v \<in> set children"
        with g have "Some v \<in> set (fst (getNodes srcs invalid seen (th_source (n_getNodes n))
                                    (th_path (n_getNodes n)) (th_info (n_getNodes n))))" by simp
        with False vs show ?thesis by auto
      next
        assume "\<exists>p \<in> set vs1. \<not> n_recursive p \<and>
          (\<exists>sn. Some v \<in> set (fst (getNodes srcs invalid sn (th_source (n_getNodes p))
                                    (th_path (n_getNodes p)) (th_info (n_getNodes p)))))"
        with vs show ?thesis by auto
      qed
    next
      assume "v \<in> set vs2"
      from 3(3) [OF False g [symmetric] w1 refl w2 this] vs show ?thesis by auto
    qed
  qed
qed

lemma walk_visits_roots:
  "walk_visits srcs invalid ns seen = Inr (vs, seen1) \<Longrightarrow> Some n \<in> set ns \<Longrightarrow> n \<in> set vs"
proof (induction srcs invalid ns seen arbitrary: vs seen1 rule: walk_visits.induct)
  case (1 srcs invalid seen)
  then show ?case by simp
next
  case (2 srcs invalid nodes seen)
  then show ?case by simp
next
  case (3 srcs invalid m nodes seen)
  show ?case
  proof (cases "n_recursive m")
    case True
    with 3(4) obtain vs0 where w: "walk_visits srcs invalid nodes seen = Inr (vs0, seen1)"
      and vs: "vs = m # vs0"
      by (auto split: sum.splits)
    from 3(5) have "n = m \<or> Some n \<in> set nodes" by auto
    then show ?thesis
    proof
      assume "n = m" with vs show ?thesis by simp
    next
      assume "Some n \<in> set nodes"
      from 3(1) [OF True w this] vs show ?thesis by simp
    qed
  next
    case False
    obtain children s1 where g:
      "getNodes srcs invalid seen (th_source (n_getNodes m)) (th_path (n_getNodes m))
         (th_info (n_getNodes m)) = (children, s1)"
      by (cases "getNodes srcs invalid seen (th_source (n_getNodes m)) (th_path (n_getNodes m))
         (th_info (n_getNodes m))")
    from 3(4) False g obtain vs1 s2 vs2 where
      w1: "walk_visits srcs invalid children s1 = Inr (vs1, s2)"
      and w2: "walk_visits srcs invalid nodes s2 = Inr (vs2, seen1)"
      and vs: "vs = m # vs1 @ vs2"
      by (auto split: sum.splits)
    from 3(5) have "n = m \<or> Some n \<in> set nodes" by auto
    then show ?thesis
    proof
      assume "n = m" with vs show ?thesis by simp
    next
      assume "Some n \<in> set nodes"
      from 3(3) [OF False g [symmetric] w1 refl w2 this] vs show ?thesis by simp
    qed
  qed
qed

lemma fold_record_hashtag_map:
  "h_map (fold record_hashtag vs h) =
     fold (\<lambda>n m. m(str_of_null (n_hashtag n) \<mapsto> n_xpath n))
       (filter (\<lambda>n. truthy (n_hashtag n) \<and> \<not> n_index n) vs) (h_map h)"
  by (induction vs arbitrary: h) (simp_all add: record_hashtag_def)

lemma fold_record_hashtag_transforms:
  "h_transforms (fold record_hashtag vs h) =
     fold (\<lambda>n t. t(str_of_null (n_hashtagPrefix n) \<mapsto>
                    (\<lambda>prop. str_of_null (n_parentPath n) @ ''/'' @ prop)))
       (filter (\<lambda>n. truthy (n_hashtag n) \<and> \<not> n_index n) vs) (h_transforms h)"
  by (induction vs arbitrary: h) (simp_all add: record_hashtag_def)

lemma dom_fold_upd:
  "dom (fold (\<lambda>n m. m(k n \<mapsto> x n)) xs m) = dom m \<union> k ` set xs"
  by (induction xs arbitrary: m) auto

lemma filter_built:
  "(\<And>v. v \<in> set vs \<Longrightarrow> built v) \<Longrightarrow>
     filter (\<lambda>n. truthy (n_hashtag n) \<and> \<not> n_index n) vs
       = filter (\<lambda>n. n_hashtag n \<noteq> None \<and> \<not> n_index n) vs"
  by (rule filter_cong) (auto simp: built_def)


lemma builders_dataNodes_built:
  assumes "builders_dataNodes (Some srcs) invalid = Inr (Some (nodes, seen))"
    and "Some n \<in> set nodes"
  shows "built n"
proof -
  from assms(1) obtain s0 src p i where "getNodes srcs invalid s0 src p i = (nodes, seen)"
    by (auto simp: builders_dataNodes_def Let_def split: option.splits prod.splits)
  with getNodes_built [of n srcs invalid s0 src p i] assms(2) show ?thesis by simp
qed

definition cycle_AB :: "dsobj list" where
  "cycle_AB =
     [source_of ''commcaresession'' ''/session'' [(''a'', ref_to ''A'')],
      source_of ''A'' ''/a'' [(''name'', leaf), (''b'', ref_to ''B'')],
      source_of ''B'' ''/b'' [(''size'', leaf), (''back'', ref_to ''A'')]]"


text \<open>
  C3. On the nodes of a build, the walk enters \<^verbatim>\<open>hashtag \<mapsto> xpath\<close> into the map and
  \<^verbatim>\<open>hashtagPrefix \<mapsto> (prop \<mapsto> parentPath + "/" + prop)\<close> into the transforms for the visited
  nodes that have a hashtag and are not index nodes, in the order of the visits, and for
  no other node. Every node of the list is visited, and every other visited node is a
  child of a visited node that is not marked recursive: the children of a node marked
  recursive are not visited through it.
\<close>

theorem C3_walk_records_visited_nodes:
  assumes "builders_dataNodes (Some srcs) invalid = Inr (Some (nodes, seen))"
    and "walk_visits srcs invalid nodes seen = Inr (vs, seen1)"
  shows "\<exists>h. builders_hashtags (Some srcs) invalid = Inr (Some h)
     \<and> h_map h =
         fold (\<lambda>n m. m(str_of_null (n_hashtag n) \<mapsto> n_xpath n))
           (filter (\<lambda>n. n_hashtag n \<noteq> None \<and> \<not> n_index n) vs) Map.empty
     \<and> h_transforms h =
         fold (\<lambda>n t. t(str_of_null (n_hashtagPrefix n) \<mapsto>
                        (\<lambda>prop. str_of_null (n_parentPath n) @ ''/'' @ prop)))
           (filter (\<lambda>n. n_hashtag n \<noteq> None \<and> \<not> n_index n) vs) Map.empty
     \<and> dom (h_map h) =
         (\<lambda>n. str_of_null (n_hashtag n)) ` {n \<in> set vs. n_hashtag n \<noteq> None \<and> \<not> n_index n}
     \<and> dom (h_transforms h) =
         (\<lambda>n. str_of_null (n_hashtagPrefix n)) ` {n \<in> set vs. n_hashtag n \<noteq> None \<and> \<not> n_index n}
     \<and> (\<forall>n. Some n \<in> set nodes \<longrightarrow> n \<in> set vs)
     \<and> (\<forall>v \<in> set vs. Some v \<in> set nodes \<or>
           (\<exists>p \<in> set vs. \<not> n_recursive p \<and>
              (\<exists>sn. Some v \<in> set (fst (getNodes srcs invalid sn (th_source (n_getNodes p))
                                          (th_path (n_getNodes p)) (th_info (n_getNodes p)))))))"
proof -
  let ?empty = "\<lparr>h_map = Map.empty, h_transforms = Map.empty\<rparr>"
  let ?H = "fold record_hashtag vs ?empty"
  let ?f = "filter (\<lambda>n. n_hashtag n \<noteq> None \<and> \<not> n_index n) vs"
  have bh: "builders_hashtags (Some srcs) invalid = Inr (Some ?H)"
    using assms by (simp add: builders_hashtags_def walk_by_visits)
  have bv: "built v" if "v \<in> set vs" for v
    using walk_visits_built [OF assms(2) _ that] builders_dataNodes_built [OF assms(1)] by blast
  note fb = filter_built [of vs, OF bv]
  have m: "h_map ?H = fold (\<lambda>n m. m(str_of_null (n_hashtag n) \<mapsto> n_xpath n)) ?f Map.empty"
    using fold_record_hashtag_map [where vs = vs and h = ?empty] fb by simp
  have t: "h_transforms ?H =
         fold (\<lambda>n t. t(str_of_null (n_hashtagPrefix n) \<mapsto>
                        (\<lambda>prop. str_of_null (n_parentPath n) @ ''/'' @ prop))) ?f Map.empty"
    using fold_record_hashtag_transforms [where vs = vs and h = ?empty] fb by simp
  have fs: "set ?f = {n \<in> set vs. n_hashtag n \<noteq> None \<and> \<not> n_index n}"
    by auto
  have dm: "dom (h_map ?H) =
         (\<lambda>n. str_of_null (n_hashtag n)) ` {n \<in> set vs. n_hashtag n \<noteq> None \<and> \<not> n_index n}"
    unfolding m dom_fold_upd fs by simp
  have dt: "dom (h_transforms ?H) =
         (\<lambda>n. str_of_null (n_hashtagPrefix n)) ` {n \<in> set vs. n_hashtag n \<noteq> None \<and> \<not> n_index n}"
    unfolding t dom_fold_upd fs by simp
  have r: "\<forall>n. Some n \<in> set nodes \<longrightarrow> n \<in> set vs"
    using walk_visits_roots [OF assms(2)] by blast
  have o: "\<forall>v \<in> set vs. Some v \<in> set nodes \<or>
           (\<exists>p \<in> set vs. \<not> n_recursive p \<and>
              (\<exists>sn. Some v \<in> set (fst (getNodes srcs invalid sn (th_source (n_getNodes p))
                                          (th_path (n_getNodes p)) (th_info (n_getNodes p))))))"
    using walk_visits_origin [OF assms(2)] by blast
  from bh m t dm dt r o show ?thesis
    by (intro exI [of _ ?H] conjI)
qed


lemma cycle_AB_run:
  "\<exists>nodes seen vs seen1.
     builders_dataNodes (Some cycle_AB) [] = Inr (Some (nodes, seen))
     \<and> walk_visits cycle_AB [] nodes seen = Inr (vs, seen1)
     \<and> map n_hashtag vs =
         [None, Some ''#case/A/name'', Some ''#case/A/b'', Some ''#case/B/size'', Some ''#case/B/back'']
     \<and> map n_recursive vs = [False, False, False, False, True]
     \<and> map n_index vs = [False, False, False, False, False]"
  by (simp add: build_simps cycle_AB_def)


theorem C3_walk_records_visited_nodes_witness:
  "\<exists>h. builders_hashtags (Some cycle_AB) [] = Inr (Some h)
     \<and> dom (h_map h) = {''#case/A/name'', ''#case/A/b'', ''#case/B/size'', ''#case/B/back''}"
proof -
  from cycle_AB_run obtain nodes seen vs seen1 where
    b: "builders_dataNodes (Some cycle_AB) [] = Inr (Some (nodes, seen))"
    and w: "walk_visits cycle_AB [] nodes seen = Inr (vs, seen1)"
    and hs: "map n_hashtag vs =
         [None, Some ''#case/A/name'', Some ''#case/A/b'', Some ''#case/B/size'', Some ''#case/B/back'']"
    and ix: "map n_index vs = [False, False, False, False, False]"
    by (elim exE conjE)
  from hs obtain v0 v1 v2 v3 v4 where vs: "vs = [v0, v1, v2, v3, v4]"
    and h: "n_hashtag v0 = None" "n_hashtag v1 = Some ''#case/A/name''"
      "n_hashtag v2 = Some ''#case/A/b''" "n_hashtag v3 = Some ''#case/B/size''"
      "n_hashtag v4 = Some ''#case/B/back''"
    by (auto simp: map_eq_Cons_conv)
  from ix vs have i: "\<not> n_index v1" "\<not> n_index v2" "\<not> n_index v3" "\<not> n_index v4"
    by simp_all
  have sel: "{n \<in> set vs. n_hashtag n \<noteq> None \<and> \<not> n_index n} = {v1, v2, v3, v4}"
    using vs h i by auto
  from C3_walk_records_visited_nodes [OF b w] obtain hh where
    r: "builders_hashtags (Some cycle_AB) [] = Inr (Some hh)"
    and d: "dom (h_map hh) =
         (\<lambda>n. str_of_null (n_hashtag n)) ` {n \<in> set vs. n_hashtag n \<noteq> None \<and> \<not> n_index n}"
    by (elim exE conjE)
  from d have "dom (h_map hh) = {''#case/A/name'', ''#case/A/b'', ''#case/B/size'', ''#case/B/back''}"
    unfolding sel using h by simp
  with r show ?thesis by (intro exI [of _ hh] conjI)
qed

section \<open>A cycle of two sources\<close>




















section \<open>When the build raises\<close>
















end
